theory Spec2Isabelle
  imports Complex_Main
begin

section \<open>Coverage metrics (scripts/compute\_coverage\_metrics.py)\<close>

text \<open>
  Python floats are modelled by the real numbers they denote, and the arithmetic on them
  by exact real arithmetic: rounding, \<open>nan\<close> and the infinities are outside the model.
  A text line is a \<open>string\<close>; each \<open>char\<close> stands for one code point below 256.
  The file object is modelled by the list of lines that iterating over it yields.
\<close>

subsection \<open>Text helpers: \<open>str.strip()\<close> and \<open>str.split()\<close>\<close>

definition is_space :: "char \<Rightarrow> bool" where
  \<comment> \<open>\<open>str.isspace\<close> on the code points below 256: TAB, LF, VT, FF, CR, FS, GS, RS, US,
      SPACE, NEL and NBSP.\<close>
  "is_space c = (of_char c \<in> {9, 10, 11, 12, 13, 28, 29, 30, 31, 32, 133, 160 :: nat})"

definition strip :: "string \<Rightarrow> string" where
  "strip s = rev (dropWhile is_space (rev (dropWhile is_space s)))"

function split :: "string \<Rightarrow> string list" where
  "split [] = []"
| "split (c # cs) =
     (if is_space c then split cs
      else (c # takeWhile (\<lambda>x. \<not> is_space x) cs) # split (dropWhile (\<lambda>x. \<not> is_space x) cs))"
  by pat_completeness auto
termination
  by (relation "measure length") (auto simp: length_dropWhile_le less_Suc_eq_le)

subsection \<open>The reader\<close>

text \<open>
  \<open>float(s)\<close> is a builtin: it is a parameter \<open>pfloat\<close> of the model, returning
  \<open>Inl msg\<close> where Python raises \<open>ValueError(msg)\<close> and \<open>Inr x\<close> where it returns \<open>x\<close>.
\<close>

type_synonym pyfloat = "string \<Rightarrow> string + real"

definition depth_step :: "pyfloat \<Rightarrow> string \<Rightarrow> real list \<Rightarrow> real list" where
  \<comment> \<open>one iteration of the loop of \<open>read_depth_file\<close>\<close>
  "depth_step pfloat line0 depths =
     (let line = strip line0 in
      if line = [] then depths
      else let parts = split line in
        if length parts < 2 then depths
        else (case pfloat (parts ! 1) of
                Inl _ \<Rightarrow> depths
              | Inr d \<Rightarrow> depths @ [d]))"

datatype error = OSError string | ValueError string

definition read_depth_file :: "pyfloat \<Rightarrow> (string \<rightharpoonup> string list) \<Rightarrow> string \<Rightarrow> error + real list" where
  \<comment> \<open>the file system maps a readable path to the lines of the file there; \<open>open\<close> on any
      other path raises an \<open>OSError\<close>\<close>
  "read_depth_file pfloat fs path =
     (case fs path of
        None \<Rightarrow> Inl (OSError path)
      | Some lines \<Rightarrow> Inr (fold (depth_step pfloat) lines []))"

subsection \<open>The metrics engine\<close>

definition pstdev :: "real list \<Rightarrow> real" where
  \<comment> \<open>\<open>statistics.pstdev\<close>: the square root of the population variance\<close>
  "pstdev xs =
     (let n = real (length xs); mu = sum_list xs / n
      in sqrt (sum_list (map (\<lambda>x. (x - mu)\<^sup>2) xs) / n))"

definition compute_metrics :: "real list \<Rightarrow> real \<times> real \<times> real" where
  "compute_metrics depths =
     (if depths = [] then (0, 0, 0)
      else
        let total_positions = length depths;
            covered_positions = length (filter (\<lambda>d. d > 0) depths);
            breadth = 100 * (real covered_positions / real total_positions);
            mean_depth = sum_list depths / real total_positions;
            sd = (if length depths > 1 then pstdev depths else 0);
            evenness =
              (if mean_depth \<le> 0 then 0
               else let e = 1 - sd / mean_depth;
                        e1 = (if e < 0 then 0 else e)
                    in (if e1 > 1 then 1 else e1))
        in (breadth, mean_depth, evenness))"

definition breadth_pct :: "real \<times> real \<times> real \<Rightarrow> real" where
  "breadth_pct m = fst m"

definition mean_depth :: "real \<times> real \<times> real \<Rightarrow> real" where
  "mean_depth m = fst (snd m)"

definition evenness :: "real \<times> real \<times> real \<Rightarrow> real" where
  "evenness m = snd (snd m)"

section \<open>Sensitivity tables (scripts/make\_sensitivity.py)\<close>

text \<open>
  \<open>csv.reader\<close> and \<open>csv.DictWriter\<close> are library code: an input file is modelled by the
  list of rows (lists of fields) that \<open>csv.reader(fh, delimiter='\t')\<close> yields for it, one
  per line, and an output file by the list of rows handed to the writer, each a list of
  the Python values written. \<open>int(s)\<close> is a parameter like \<open>float(s)\<close>.
\<close>

type_synonym pyint = "string \<Rightarrow> string + int"

record hit =
  query :: string
  target :: string
  evalue :: real
  bits :: real
  pident :: real
  alnlen :: int
  qcov :: real
  tcov :: real

definition startswith :: "string \<Rightarrow> string \<Rightarrow> bool" where
  "startswith s p = (take (length p) s = p)"

definition too_few_columns :: string where
  "too_few_columns =
     ''Expected at least 8 columns per line: query,target,evalue,bits,pident,alnlen,qcov,tcov''"

definition parse_row :: "pyfloat \<Rightarrow> pyint \<Rightarrow> string list \<Rightarrow> error + hit" where
  \<comment> \<open>the dict display of \<open>read_tsv\<close>: the conversions run in field order, the first
      failing one raises\<close>
  "parse_row pfloat pint r =
     (case pfloat (r ! 2) of Inl m \<Rightarrow> Inl (ValueError m) | Inr ev \<Rightarrow>
     (case pfloat (r ! 3) of Inl m \<Rightarrow> Inl (ValueError m) | Inr bi \<Rightarrow>
     (case pfloat (r ! 4) of Inl m \<Rightarrow> Inl (ValueError m) | Inr pid \<Rightarrow>
     (case pint (r ! 5) of Inl m \<Rightarrow> Inl (ValueError m) | Inr al \<Rightarrow>
     (case pfloat (r ! 6) of Inl m \<Rightarrow> Inl (ValueError m) | Inr qc \<Rightarrow>
     (case pfloat (r ! 7) of Inl m \<Rightarrow> Inl (ValueError m) | Inr tc \<Rightarrow>
        Inr \<lparr>query = r ! 0, target = r ! 1, evalue = ev, bits = bi, pident = pid,
             alnlen = al, qcov = qc, tcov = tc\<rparr>))))))"

fun read_rows :: "pyfloat \<Rightarrow> pyint \<Rightarrow> string list list \<Rightarrow> hit list \<Rightarrow> error + hit list" where
  "read_rows pfloat pint [] rows = Inr rows"
| "read_rows pfloat pint (r # rdr) rows =
     (if r = [] then read_rows pfloat pint rdr rows
      else if startswith (r ! 0) ''#'' then read_rows pfloat pint rdr rows
      else if length r < 8 then Inl (ValueError too_few_columns)
      else (case parse_row pfloat pint r of
              Inl e \<Rightarrow> Inl e
            | Inr row \<Rightarrow> read_rows pfloat pint rdr (rows @ [row])))"

definition read_tsv ::
    "pyfloat \<Rightarrow> pyint \<Rightarrow> (string \<rightharpoonup> string list list) \<Rightarrow> string \<Rightarrow> error + hit list" where
  "read_tsv pfloat pint fs path =
     (case fs path of
        None \<Rightarrow> Inl (OSError path)
      | Some rdr \<Rightarrow> read_rows pfloat pint rdr [])"

record summary =
  threshold_bits :: int
  evalue_cutoff :: real
  n_hits_total :: nat
  n_unique_queries_total :: nat
  n_hits_conservative :: nat
  n_unique_queries_conservative :: nat

text \<open>
  A detailed entry is \<open>dict(r)\<close> with the pass flags added. The keys \<open>pass_bits_<b>\<close> are
  computed from the thresholds, so they are a map of their own, keyed by \<open>b\<close>.
\<close>

record entry = hit +
  pass_evalue :: bool
  pass_bits :: "int \<rightharpoonup> bool"
  pass_conservative :: bool

definition summarise :: "hit list \<Rightarrow> real \<Rightarrow> real \<Rightarrow> real \<Rightarrow> int \<Rightarrow> summary" where
  \<comment> \<open>the body of the loop over \<open>bits_list\<close>\<close>
  "summarise rows ev_cutoff cons_pident cons_qcov b =
     (let filtered = filter (\<lambda>r. evalue r \<le> ev_cutoff \<and> bits r \<ge> of_int b) rows;
          n_hits = length filtered;
          unique_queries = card (set (map query filtered));
          cons = filter (\<lambda>r. pident r \<ge> cons_pident \<and> qcov r \<ge> cons_qcov) filtered;
          n_hits_cons = length cons;
          unique_queries_cons = card (set (map query cons))
      in \<lparr>threshold_bits = b, evalue_cutoff = ev_cutoff, n_hits_total = n_hits,
          n_unique_queries_total = unique_queries, n_hits_conservative = n_hits_cons,
          n_unique_queries_conservative = unique_queries_cons\<rparr>)"

definition detail :: "int list \<Rightarrow> real \<Rightarrow> real \<Rightarrow> real \<Rightarrow> hit \<Rightarrow> entry" where
  \<comment> \<open>the body of the loop over \<open>rows\<close>\<close>
  "detail bits_list ev_cutoff cons_pident cons_qcov r =
     (let pe = (evalue r \<le> ev_cutoff);
          pb = fold (\<lambda>b m. m(b \<mapsto> (bits r \<ge> of_int b \<and> pe))) bits_list Map.empty;
          pc = (pe \<and> pident r \<ge> cons_pident \<and> qcov r \<ge> cons_qcov)
      in \<lparr>query = query r, target = target r, evalue = evalue r, bits = bits r,
          pident = pident r, alnlen = alnlen r, qcov = qcov r, tcov = tcov r,
          pass_evalue = pe, pass_bits = pb, pass_conservative = pc\<rparr>)"

definition make_summaries ::
    "hit list \<Rightarrow> int list \<Rightarrow> real \<Rightarrow> real \<Rightarrow> real \<Rightarrow> summary list \<times> entry list" where
  "make_summaries rows bits_list ev_cutoff cons_pident cons_qcov =
     (let summaries =
            fold (\<lambda>b acc. acc @ [summarise rows ev_cutoff cons_pident cons_qcov b]) bits_list [];
          detailed =
            fold (\<lambda>r acc. acc @ [detail bits_list ev_cutoff cons_pident cons_qcov r]) rows []
      in (summaries, detailed))"

subsection \<open>Report writers and \<open>main\<close>\<close>

datatype cell = CStr string | CInt int | CFloat real | CBool bool

record world =
  tsv_files :: "string \<rightharpoonup> string list list"
    \<comment> \<open>readable inputs: what \<open>csv.reader\<close> yields for each path\<close>
  writable :: "string \<Rightarrow> bool"
    \<comment> \<open>whether \<open>open(path, 'w')\<close> succeeds\<close>
  csv_files :: "string \<rightharpoonup> cell list list"
    \<comment> \<open>the files written so far\<close>
  stdout :: "string list"

fun digits :: "nat \<Rightarrow> string" where
  "digits n = (if n < 10 then [char_of (48 + n)] else digits (n div 10) @ [char_of (48 + n mod 10)])"

declare digits.simps [simp del]

definition str_int :: "int \<Rightarrow> string" where
  \<comment> \<open>the decimal rendering of \<open>f'{b}'\<close>\<close>
  "str_int i = (if i < 0 then CHR ''-'' # digits (nat (- i)) else digits (nat i))"

definition summary_fieldnames :: "string list" where
  "summary_fieldnames =
     [''threshold_bits'', ''evalue_cutoff'', ''n_hits_total'', ''n_unique_queries_total'',
      ''n_hits_conservative'', ''n_unique_queries_conservative'']"

definition summary_row :: "summary \<Rightarrow> cell list" where
  "summary_row s =
     [CInt (threshold_bits s), CFloat (evalue_cutoff s), CInt (int (n_hits_total s)),
      CInt (int (n_unique_queries_total s)), CInt (int (n_hits_conservative s)),
      CInt (int (n_unique_queries_conservative s))]"

definition write_summaries :: "summary list \<Rightarrow> string \<Rightarrow> world \<Rightarrow> error + world" where
  "write_summaries summaries out_path w =
     (if \<not> writable w out_path then Inl (OSError out_path)
      else Inr (w\<lparr>csv_files := (csv_files w)(out_path \<mapsto>
              fold (\<lambda>s fh. fh @ [summary_row s]) summaries [map CStr summary_fieldnames])\<rparr>))"

definition detailed_fieldnames :: "int list \<Rightarrow> string list" where
  "detailed_fieldnames bits_list =
     [''query'', ''target'', ''evalue'', ''bits'', ''pident'', ''alnlen'', ''qcov'', ''tcov'',
      ''pass_evalue'']
     @ map (\<lambda>b. ''pass_bits_'' @ str_int b) bits_list
     @ [''pass_conservative'']"

definition detailed_row :: "int list \<Rightarrow> entry \<Rightarrow> cell list" where
  \<comment> \<open>\<open>{k: d.get(k, '') for k in fieldnames}\<close>, in the order of \<open>fieldnames\<close>\<close>
  "detailed_row bits_list d =
     [CStr (query d), CStr (target d), CFloat (evalue d), CFloat (bits d), CFloat (pident d),
      CInt (alnlen d), CFloat (qcov d), CFloat (tcov d), CBool (pass_evalue d)]
     @ map (\<lambda>b. case pass_bits d b of None \<Rightarrow> CStr [] | Some v \<Rightarrow> CBool v) bits_list
     @ [CBool (pass_conservative d)]"

definition write_detailed :: "entry list \<Rightarrow> int list \<Rightarrow> string \<Rightarrow> world \<Rightarrow> error + world" where
  "write_detailed detailed bits_list out_path w =
     (if \<not> writable w out_path then Inl (OSError out_path)
      else Inr (w\<lparr>csv_files := (csv_files w)(out_path \<mapsto>
              fold (\<lambda>d fh. fh @ [detailed_row bits_list d]) detailed
                [map CStr (detailed_fieldnames bits_list)])\<rparr>))"

record args =
  arg_infile :: string
  arg_out_dir :: string
  arg_bits :: "int list"
  arg_evalue :: real
  arg_cons_pident :: real
  arg_cons_qcov :: real

definition rstrip_slash :: "string \<Rightarrow> string" where
  "rstrip_slash s = rev (dropWhile (\<lambda>c. c = CHR ''/'') (rev s))"

definition out_summary :: "args \<Rightarrow> string" where
  "out_summary a = rstrip_slash (arg_out_dir a) @ ''/Table_Sx_sensitivity.csv''"

definition out_detailed :: "args \<Rightarrow> string" where
  "out_detailed a = rstrip_slash (arg_out_dir a) @ ''/Table_Sx_detailed.csv''"

definition main :: "pyfloat \<Rightarrow> pyint \<Rightarrow> args \<Rightarrow> world \<Rightarrow> (error + unit) \<times> world" where
  "main pfloat pint a w =
     (case read_tsv pfloat pint (tsv_files w) (arg_infile a) of
        Inl e \<Rightarrow> (Inl e, w)
      | Inr rows \<Rightarrow>
          (case make_summaries rows (arg_bits a) (arg_evalue a) (arg_cons_pident a) (arg_cons_qcov a) of
             (summaries, detailed) \<Rightarrow>
               (case write_summaries summaries (out_summary a) w of
                  Inl e \<Rightarrow> (Inl e, w)
                | Inr w1 \<Rightarrow>
                    (case write_detailed detailed (arg_bits a) (out_detailed a) w1 of
                       Inl e \<Rightarrow> (Inl e, w1)
                     | Inr w2 \<Rightarrow>
                         (Inr (), w2\<lparr>stdout := stdout w2 @
                            [''Wrote summary -> '' @ out_summary a,
                             ''Wrote detailed -> '' @ out_detailed a]\<rparr>)))))"

section \<open>Vocabulary of the specification\<close>

text \<open>
  The predicates below name the notions the specification uses when it talks about the
  two readers and the detailed table; they are not part of the program.
\<close>

definition valid_line :: "pyfloat \<Rightarrow> string \<Rightarrow> bool" where
  "valid_line pfloat l = (strip l \<noteq> [] \<and> 2 \<le> length (split l) \<and> \<not> isl (pfloat (split l ! 1)))"

definition same_but_first_field :: "string \<Rightarrow> string \<Rightarrow> bool" where
  "same_but_first_field l l' = ((split l = [] \<longleftrightarrow> split l' = []) \<and> tl (split l) = tl (split l'))"

definition numeric_ok :: "pyfloat \<Rightarrow> pyint \<Rightarrow> string list \<Rightarrow> bool" where
  "numeric_ok pfloat pint r =
     (\<not> isl (pfloat (r ! 2)) \<and> \<not> isl (pfloat (r ! 3)) \<and> \<not> isl (pfloat (r ! 4)) \<and>
      \<not> isl (pint (r ! 5)) \<and> \<not> isl (pfloat (r ! 6)) \<and> \<not> isl (pfloat (r ! 7)))"

definition skipped :: "string list \<Rightarrow> bool" where
  "skipped r = (r = [] \<or> startswith (r ! 0) ''#'')"

definition hit_cells :: "hit \<Rightarrow> cell list" where
  "hit_cells r =
     [CStr (query r), CStr (target r), CFloat (evalue r), CFloat (bits r), CFloat (pident r),
      CInt (alnlen r), CFloat (qcov r), CFloat (tcov r)]"

subsection \<open>A finite instance of the conversions\<close>

text \<open>
  To run the model on concrete files, \<open>lit_float\<close> and \<open>lit_int\<close> agree with \<open>float\<close> and
  \<open>int\<close> on the literals listed and reject every other string with the message of the
  builtin.
\<close>

definition lit_float :: pyfloat where
  "lit_float s =
     (case map_of [(''0'', 0), (''5'', 5), (''10'', 10), (''35'', 35), (''40'', 40),
                   (''60'', 60), (''100'', 100), (''-1'', - 1), (''1e-6'', 1 / 10 ^ 6)] s of
        None \<Rightarrow> Inl (''could not convert string to float: '' @ [CHR 0x27] @ s @ [CHR 0x27])
      | Some x \<Rightarrow> Inr x)"

definition lit_int :: pyint where
  "lit_int s =
     (case map_of [(''0'', 0), (''5'', 5), (''10'', 10), (''100'', 100)] s of
        None \<Rightarrow> Inl (''invalid literal for int() with base 10: '' @ [CHR 0x27] @ s @ [CHR 0x27])
      | Some x \<Rightarrow> Inr x)"

text \<open>
  The rows of Scenarios C and D of the specification, as \<open>csv.reader\<close> yields them, and a
  run of \<open>main\<close> on a single input file with the default command-line settings.
\<close>

definition scenario_c :: "string list" where
  "scenario_c = [''q1'', ''t1'', ''1e-6'', ''40'', ''35'', ''100'', ''60'', ''60'']"

definition scenario_d :: "string list" where
  "scenario_d = [''q1'', ''t1'', ''1e-6'', ''40'', ''35'', ''100'', ''60'']"

definition demo_world :: "string list list \<Rightarrow> world" where
  "demo_world rdr =
     \<lparr>tsv_files = [''hits.tsv'' \<mapsto> rdr], writable = (\<lambda>p. True), csv_files = Map.empty,
      stdout = []\<rparr>"

definition demo_args :: args where
  "demo_args =
     \<lparr>arg_infile = ''hits.tsv'', arg_out_dir = ''out/'', arg_bits = [20, 35, 50],
      arg_evalue = 1 / 10 ^ 5, arg_cons_pident = 30, arg_cons_qcov = 50\<rparr>"

definition scenario_c_hit :: hit where
  "scenario_c_hit =
     \<lparr>query = ''q1'', target = ''t1'', evalue = 1 / 10 ^ 6, bits = 40, pident = 35,
      alnlen = 100, qcov = 60, tcov = 60\<rparr>"

definition bad_evalue_row :: "string list" where
  "bad_evalue_row = [''q2'', ''t2'', ''x'', ''40'', ''35'', ''100'', ''60'', ''60'']"

definition weak_hit :: hit where
  "weak_hit =
     \<lparr>query = ''q2'', target = ''t1'', evalue = 1 / 10 ^ 6, bits = 25, pident = 20,
      alnlen = 100, qcov = 60, tcov = 60\<rparr>"

section \<open>Auxiliary lemmas\<close>

subsection \<open>Stripping and splitting\<close>

lemma split_all_space: "\<forall>c\<in>set ws. is_space c \<Longrightarrow> split ws = []"
  by (induction ws) auto

lemma split_dropWhile_space: "split (dropWhile is_space s) = split s"
  by (induction s) auto

lemma split_append_spaces:
  "\<forall>c\<in>set ws. is_space c \<Longrightarrow> split (s @ ws) = split s"
proof (induction s rule: split.induct)
  case 1
  then show ?case by (simp add: split_all_space)
next
  case (2 c cs)
  show ?case
  proof (cases "is_space c")
    case True
    with 2 show ?thesis by simp
  next
    case False
    show ?thesis
    proof (cases "\<forall>x\<in>set cs. \<not> is_space x")
      case True
      have tw: "takeWhile (\<lambda>x. \<not> is_space x) ws = []"
        using 2(3) by (cases ws) auto
      have dw: "dropWhile (\<lambda>x. \<not> is_space x) ws = ws"
        using 2(3) by (cases ws) auto
      from True have tc: "takeWhile (\<lambda>x. \<not> is_space x) cs = cs"
        and dc: "dropWhile (\<lambda>x. \<not> is_space x) cs = []"
        by auto
      from True have "takeWhile (\<lambda>x. \<not> is_space x) (cs @ ws) = cs"
        by (simp add: takeWhile_append2 tw)
      moreover from True have "dropWhile (\<lambda>x. \<not> is_space x) (cs @ ws) = ws"
        by (simp add: dropWhile_append2 dw)
      ultimately show ?thesis
        using False 2(3) by (simp add: tc dc split_all_space)
    next
      case nall: False
      then obtain x where x: "x \<in> set cs" "is_space x" by auto
      then have "takeWhile (\<lambda>x. \<not> is_space x) (cs @ ws) = takeWhile (\<lambda>x. \<not> is_space x) cs"
        by (intro takeWhile_append1[where x=x]) auto
      moreover from x have "dropWhile (\<lambda>x. \<not> is_space x) (cs @ ws) = dropWhile (\<lambda>x. \<not> is_space x) cs @ ws"
        by (intro dropWhile_append1[where x=x]) auto
      ultimately show ?thesis using False 2(2)[OF False 2(3)] by simp
    qed
  qed
qed

lemma strip_decomp:
  "\<exists>ws. (\<forall>c\<in>set ws. is_space c) \<and> dropWhile is_space s = strip s @ ws"
proof -
  let ?t = "dropWhile is_space s"
  have "rev ?t = takeWhile is_space (rev ?t) @ dropWhile is_space (rev ?t)" by simp
  then have "rev (rev ?t) = rev (takeWhile is_space (rev ?t) @ dropWhile is_space (rev ?t))" by simp
  then have "?t = rev (dropWhile is_space (rev ?t)) @ rev (takeWhile is_space (rev ?t))"
    by (simp only: rev_rev_ident rev_append)
  then have "?t = strip s @ rev (takeWhile is_space (rev ?t))"
    by (simp only: strip_def)
  moreover have "\<forall>c\<in>set (rev (takeWhile is_space (rev ?t))). is_space c"
    by (auto dest: set_takeWhileD)
  ultimately show ?thesis by blast
qed

lemma split_strip: "split (strip s) = split s"
proof -
  obtain ws where "\<forall>c\<in>set ws. is_space c" "dropWhile is_space s = strip s @ ws"
    using strip_decomp by blast
  then have "split (strip s) = split (dropWhile is_space s)"
    by (simp add: split_append_spaces)
  then show ?thesis by (simp add: split_dropWhile_space)
qed

lemma split_Nil_iff: "split s = [] \<longleftrightarrow> (\<forall>c\<in>set s. is_space c)"
  by (induction s) auto

lemma strip_Nil_iff: "strip s = [] \<longleftrightarrow> (\<forall>c\<in>set s. is_space c)"
proof
  assume "strip s = []"
  moreover obtain ws where "\<forall>c\<in>set ws. is_space c" "dropWhile is_space s = strip s @ ws"
    using strip_decomp by blast
  ultimately have "\<forall>c\<in>set (dropWhile is_space s). is_space c" by simp
  moreover have "set s = set (takeWhile is_space s) \<union> set (dropWhile is_space s)"
    by (metis set_append takeWhile_dropWhile_id)
  ultimately show "\<forall>c\<in>set s. is_space c"
    by (auto dest: set_takeWhileD)
next
  assume "\<forall>c\<in>set s. is_space c"
  then show "strip s = []" by (auto simp: strip_def dest: set_dropWhileD)
qed

lemma strip_Nil_iff_split: "strip s = [] \<longleftrightarrow> split s = []"
  by (simp add: split_Nil_iff strip_Nil_iff)

subsection \<open>The depth reader as a filter\<close>

lemma depth_step_tl:
  "depth_step pf l acc =
     (case tl (split l) of [] \<Rightarrow> acc
      | f # _ \<Rightarrow> (case pf f of Inl _ \<Rightarrow> acc | Inr d \<Rightarrow> acc @ [d]))"
proof (cases "split l")
  case Nil
  then show ?thesis
    by (simp add: depth_step_def strip_Nil_iff_split)
next
  case (Cons p rest)
  then have "strip l \<noteq> []" by (simp add: strip_Nil_iff_split)
  with Cons show ?thesis
    by (cases rest) (simp_all add: depth_step_def split_strip Let_def)
qed

lemma depth_step_valid:
  "depth_step pf l acc = (if valid_line pf l then acc @ [projr (pf (split l ! 1))] else acc)"
proof (cases "split l")
  case Nil
  then show ?thesis by (simp add: depth_step_tl valid_line_def)
next
  case (Cons p rest)
  then have "strip l \<noteq> []" by (simp add: strip_Nil_iff_split)
  with Cons show ?thesis
    by (cases rest; cases "pf (hd rest)") (simp_all add: depth_step_tl valid_line_def)
qed

lemma fold_depth_step:
  "fold (depth_step pf) ls acc =
     acc @ map (\<lambda>l. projr (pf (split l ! 1))) (filter (valid_line pf) ls)"
  by (induction ls arbitrary: acc) (simp_all add: depth_step_valid)

lemma fold_depth_step_rel:
  "list_all2 same_but_first_field ls ls' \<Longrightarrow>
     fold (depth_step pf) ls acc = fold (depth_step pf) ls' acc"
proof (induction ls ls' arbitrary: acc rule: list_all2_induct)
  case Nil
  show ?case by simp
next
  case (Cons l ls l' ls')
  from Cons.hyps(1) have "depth_step pf l acc = depth_step pf l' acc"
    by (simp add: depth_step_tl same_but_first_field_def)
  with Cons.IH show ?case by simp
qed

lemma breadth_bounds:
  "0 \<le> breadth_pct (compute_metrics ds) \<and> breadth_pct (compute_metrics ds) \<le> 100"
proof (cases "ds = []")
  case True
  then show ?thesis by (simp add: compute_metrics_def breadth_pct_def)
next
  case False
  define c where "c = real (length (filter (\<lambda>d. d > 0) ds))"
  define n where "n = real (length ds)"
  from False have pos: "0 < n" by (simp add: n_def)
  have le: "c \<le> n" by (simp add: c_def n_def)
  have c0: "0 \<le> c" by (simp add: c_def)
  from pos le have "c / n \<le> 1" by (simp add: divide_le_eq_1)
  then have up: "100 * (c / n) \<le> 100" by simp
  from pos c0 have lo: "0 \<le> 100 * (c / n)" by simp
  have "breadth_pct (compute_metrics ds) = 100 * (c / n)"
    using False by (simp add: compute_metrics_def breadth_pct_def Let_def c_def n_def)
  with lo up show ?thesis by simp
qed

lemma evenness_bounds:
  "0 \<le> evenness (compute_metrics ds) \<and> evenness (compute_metrics ds) \<le> 1"
  by (simp add: compute_metrics_def evenness_def Let_def)

lemma mean_nonneg:
  "\<forall>d\<in>set ds. 0 \<le> d \<Longrightarrow> 0 \<le> mean_depth (compute_metrics ds)"
  by (simp add: compute_metrics_def mean_depth_def Let_def sum_list_nonneg)

subsection \<open>The sensitivity loops\<close>

lemma fold_snoc: "fold (\<lambda>x acc. acc @ [f x]) xs acc = acc @ map f xs"
  by (induction xs arbitrary: acc) simp_all

lemma make_summaries_map:
  "make_summaries rows bl ev cp cq = (map (summarise rows ev cp cq) bl, map (detail bl ev cp cq) rows)"
  by (simp add: make_summaries_def fold_snoc)

lemma fold_upd_in: "B \<in> set bl \<Longrightarrow> fold (\<lambda>b m. m(b \<mapsto> g b)) bl m0 B = Some (g B)"
proof (induction bl arbitrary: m0 rule: rev_induct)
  case Nil
  then show ?case by simp
next
  case (snoc b bl)
  then show ?case by (cases "B = b") auto
qed

lemma truncate_detail: "hit.truncate (detail bl ev cp cq r) = r"
  by (simp add: detail_def hit.truncate_def Let_def)

lemma parse_row_cases:
  "(\<exists>h. parse_row pf pn r = Inr h) \<or> (\<exists>m. parse_row pf pn r = Inl (ValueError m))"
  by (simp add: parse_row_def split: sum.splits)

lemma parse_row_ok_iff: "(\<exists>h. parse_row pf pn r = Inr h) \<longleftrightarrow> numeric_ok pf pn r"
  by (auto simp add: parse_row_def numeric_ok_def split: sum.splits)

lemma parse_row_take8: "8 \<le> length r \<Longrightarrow> parse_row pf pn (take 8 r) = parse_row pf pn r"
  by (simp add: parse_row_def cong: sum.case_cong)

lemma read_rows_append:
  "read_rows pf pn (xs @ ys) acc =
     (case read_rows pf pn xs acc of Inl e \<Rightarrow> Inl e | Inr hs \<Rightarrow> read_rows pf pn ys hs)"
  by (induction xs arbitrary: acc) (simp_all split: sum.splits)

lemma read_rows_blank_prefix:
  "read_rows pf pn (replicate n [] @ rdr) acc = read_rows pf pn rdr acc"
  by (induction n) simp_all

lemma parse_row_error:
  assumes "parse_row pf pn r = Inl e" and "8 \<le> length r"
  shows "\<exists>s\<in>set (take 8 r). \<exists>m. (pf s = Inl m \<or> pn s = Inl m) \<and> e = ValueError m"
proof -
  have mem: "r ! i \<in> set (take 8 r)" if "i < 8" for i
  proof -
    from that assms(2) have "take 8 r ! i = r ! i" "i < length (take 8 r)" by simp_all
    then show ?thesis by (metis nth_mem)
  qed
  from assms(1) consider
      m where "pf (r ! 2) = Inl m" "e = ValueError m"
    | m where "pf (r ! 3) = Inl m" "e = ValueError m"
    | m where "pf (r ! 4) = Inl m" "e = ValueError m"
    | m where "pn (r ! 5) = Inl m" "e = ValueError m"
    | m where "pf (r ! 6) = Inl m" "e = ValueError m"
    | m where "pf (r ! 7) = Inl m" "e = ValueError m"
    by (auto simp: parse_row_def split: sum.splits)
  then show ?thesis
  proof cases
    case 1 with mem[of 2] show ?thesis by auto
  next
    case 2 with mem[of 3] show ?thesis by auto
  next
    case 3 with mem[of 4] show ?thesis by auto
  next
    case 4 with mem[of 5] show ?thesis by auto
  next
    case 5 with mem[of 6] show ?thesis by auto
  next
    case 6 with mem[of 7] show ?thesis by auto
  qed
qed

lemma read_rows_error:
  "read_rows pf pn rdr acc = Inl e \<Longrightarrow>
     (\<exists>r\<in>set rdr. \<not> skipped r \<and> length r < 8 \<and> e = ValueError too_few_columns)
   \<or> (\<exists>r\<in>set rdr. \<not> skipped r \<and> 8 \<le> length r \<and> parse_row pf pn r = Inl e)"
proof (induction rdr arbitrary: acc)
  case Nil
  then show ?case by simp
next
  case (Cons r rdr)
  show ?case
  proof (cases "skipped r")
    case True
    with Cons.prems have "read_rows pf pn rdr acc = Inl e"
      by (auto simp: skipped_def split: if_splits)
    from Cons.IH[OF this] show ?thesis by auto
  next
    case ns: False
    show ?thesis
    proof (cases "length r < 8")
      case True
      with ns Cons.prems show ?thesis by (auto simp: skipped_def split: if_splits)
    next
      case False
      show ?thesis
      proof (cases "parse_row pf pn r")
        case (Inl e')
        with ns False Cons.prems show ?thesis by (auto simp: skipped_def split: if_splits)
      next
        case (Inr h)
        with ns False Cons.prems have "read_rows pf pn rdr (acc @ [h]) = Inl e"
          by (auto simp: skipped_def split: if_splits)
        from Cons.IH[OF this] show ?thesis by auto
      qed
    qed
  qed
qed

lemma read_rows_error_is_ValueError:
  "read_rows pf pn rdr acc = Inl e \<Longrightarrow> \<exists>m. e = ValueError m"
  using read_rows_error[of pf pn rdr acc e] parse_row_cases[of pf pn]
  by (metis Inl_inject Inl_Inr_False)

lemma read_rows_ok_iff:
  "(\<exists>hs. read_rows pf pn rdr acc = Inr hs) \<longleftrightarrow>
     (\<forall>r\<in>set rdr. skipped r \<or> (8 \<le> length r \<and> numeric_ok pf pn r))"
proof (induction rdr arbitrary: acc)
  case Nil
  show ?case by simp
next
  case (Cons r rdr)
  show ?case
  proof (cases "skipped r")
    case True
    then show ?thesis using Cons.IH[of acc] by (auto simp: skipped_def split: if_splits)
  next
    case ns: False
    show ?thesis
    proof (cases "length r < 8")
      case True
      with ns show ?thesis by (auto simp: skipped_def split: if_splits)
    next
      case False
      show ?thesis
      proof (cases "parse_row pf pn r")
        case (Inl e')
        then have "\<not> numeric_ok pf pn r" using parse_row_ok_iff[of pf pn r] by auto
        with ns False Inl show ?thesis by (auto simp: skipped_def split: if_splits)
      next
        case (Inr h)
        then have "numeric_ok pf pn r" using parse_row_ok_iff[of pf pn r] by auto
        with ns False Inr show ?thesis using Cons.IH[of "acc @ [h]"] by (auto simp: skipped_def split: if_splits)
      qed
    qed
  qed
qed

lemma read_rows_take8:
  "read_rows pf pn (map (take 8) rdr) acc = read_rows pf pn rdr acc"
proof (induction rdr arbitrary: acc)
  case Nil
  show ?case by simp
next
  case (Cons r rdr)
  have hd0: "take 8 r ! 0 = r ! 0" by (cases r) simp_all
  show ?case
  proof (cases "length r < 8")
    case True
    then have "take 8 r = r" by simp
    with Cons.IH show ?thesis by (simp split: sum.splits)
  next
    case False
    then have "parse_row pf pn (take 8 r) = parse_row pf pn r"
      by (simp add: parse_row_take8)
    moreover from False have "take 8 r \<noteq> []" "r \<noteq> []" "\<not> length (take 8 r) < 8" by auto
    ultimately show ?thesis using False Cons.IH hd0 by (simp split: sum.splits)
  qed
qed

lemma main_read_error:
  "read_tsv pf pn (tsv_files w) (arg_infile a) = Inl e \<Longrightarrow> main pf pn a w = (Inl e, w)"
  by (simp add: main_def)

lemma length_filter_mono:
  "(\<And>x. x \<in> set xs \<Longrightarrow> P x \<Longrightarrow> Q x) \<Longrightarrow> length (filter P xs) \<le> length (filter Q xs)"
  by (induction xs) auto

lemma card_image_filter_mono:
  "(\<And>x. x \<in> set xs \<Longrightarrow> P x \<Longrightarrow> Q x) \<Longrightarrow>
     card (set (map f (filter P xs))) \<le> card (set (map f (filter Q xs)))"
  by (rule card_mono) auto

lemma summarise_counts:
  "n_hits_total (summarise rows ev cp cq b)
     = length (filter (\<lambda>r. evalue r \<le> ev \<and> bits r \<ge> of_int b) rows)"
  "n_unique_queries_total (summarise rows ev cp cq b)
     = card (set (map query (filter (\<lambda>r. evalue r \<le> ev \<and> bits r \<ge> of_int b) rows)))"
  "n_hits_conservative (summarise rows ev cp cq b)
     = length (filter (\<lambda>r. (evalue r \<le> ev \<and> bits r \<ge> of_int b) \<and> pident r \<ge> cp \<and> qcov r \<ge> cq) rows)"
  "n_unique_queries_conservative (summarise rows ev cp cq b)
     = card (set (map query (filter (\<lambda>r. (evalue r \<le> ev \<and> bits r \<ge> of_int b) \<and> pident r \<ge> cp \<and> qcov r \<ge> cq) rows)))"
  "threshold_bits (summarise rows ev cp cq b) = b"
  "evalue_cutoff (summarise rows ev cp cq b) = ev"
  by (simp_all add: summarise_def Let_def)

lemma summarise_mono:
  assumes "b1 \<le> b2"
  shows "n_hits_total (summarise rows ev cp cq b2) \<le> n_hits_total (summarise rows ev cp cq b1)"
    and "n_unique_queries_total (summarise rows ev cp cq b2)
           \<le> n_unique_queries_total (summarise rows ev cp cq b1)"
    and "n_hits_conservative (summarise rows ev cp cq b2)
           \<le> n_hits_conservative (summarise rows ev cp cq b1)"
    and "n_unique_queries_conservative (summarise rows ev cp cq b2)
           \<le> n_unique_queries_conservative (summarise rows ev cp cq b1)"
proof -
  have le: "(of_int b1 :: real) \<le> of_int b2" using assms by simp
  show "n_hits_total (summarise rows ev cp cq b2) \<le> n_hits_total (summarise rows ev cp cq b1)"
    unfolding summarise_counts using le by (intro length_filter_mono) auto
  show "n_unique_queries_total (summarise rows ev cp cq b2)
           \<le> n_unique_queries_total (summarise rows ev cp cq b1)"
    unfolding summarise_counts using le by (intro card_image_filter_mono) auto
  show "n_hits_conservative (summarise rows ev cp cq b2)
           \<le> n_hits_conservative (summarise rows ev cp cq b1)"
    unfolding summarise_counts using le by (intro length_filter_mono) auto
  show "n_unique_queries_conservative (summarise rows ev cp cq b2)
           \<le> n_unique_queries_conservative (summarise rows ev cp cq b1)"
    unfolding summarise_counts using le by (intro card_image_filter_mono) auto
qed

lemma detail_flags:
  "pass_evalue (detail bl ev cp cq r) = (evalue r \<le> ev)"
  "pass_conservative (detail bl ev cp cq r) = (evalue r \<le> ev \<and> pident r \<ge> cp \<and> qcov r \<ge> cq)"
  "B \<in> set bl \<Longrightarrow> pass_bits (detail bl ev cp cq r) B = Some (bits r \<ge> of_int B \<and> evalue r \<le> ev)"
  by (simp_all add: detail_def Let_def fold_upd_in)

lemma detailed_row_take8: "take 8 (detailed_row bl (detail bl ev cp cq r)) = hit_cells r"
  by (simp add: detailed_row_def detail_def hit_cells_def Let_def)

section \<open>The claims\<close>

subsection \<open>Coverage\<close>

text \<open>
  \<^bold>\<open>C1\<close> (amended). The metrics engine returns \<open>(0, 0, 0)\<close> for the empty sequence and
  evenness 0 for every sequence whose mean depth is at most 0. A single data point does not
  force evenness 0: its standard deviation is taken as 0, so its evenness is 1 when the
  depth is positive and 0 otherwise. A file without a valid depth line is read as the empty
  sequence, without an error, and gets breadth 0, mean depth 0 and evenness 0.
\<close>

theorem evenness_zero_cases:
  "compute_metrics [] = (0, 0, 0)
   \<and> (mean_depth (compute_metrics ds) \<le> 0 \<longrightarrow> evenness (compute_metrics ds) = 0)
   \<and> evenness (compute_metrics [d]) = (if d > 0 then 1 else 0)
   \<and> (fs path = Some ls \<and> (\<forall>l\<in>set ls. \<not> valid_line pf l) \<longrightarrow>
        read_depth_file pf fs path = Inr []
        \<and> map_sum id compute_metrics (read_depth_file pf fs path) = Inr (0, 0, 0))"
proof -
  have a: "compute_metrics [] = (0, 0, 0)"
    by (simp add: compute_metrics_def)
  have b: "mean_depth (compute_metrics ds) \<le> 0 \<longrightarrow> evenness (compute_metrics ds) = 0"
    by (simp add: compute_metrics_def mean_depth_def evenness_def Let_def)
  have c: "evenness (compute_metrics [d]) = (if d > 0 then 1 else 0)"
    by (simp add: compute_metrics_def evenness_def)
  have d: "read_depth_file pf fs path = Inr []"
    if "fs path = Some ls" "\<forall>l\<in>set ls. \<not> valid_line pf l"
  proof -
    from that(2) have "filter (valid_line pf) ls = []" by (simp add: filter_empty_conv)
    with that(1) show ?thesis by (simp add: read_depth_file_def fold_depth_step)
  qed
  from a b c d show ?thesis by simp
qed

text \<open>The theorem at a concrete input.\<close>

theorem evenness_zero_cases_witness:
  "mean_depth (compute_metrics [- 1, 1]) \<le> 0 \<and> evenness (compute_metrics [- 1, 1]) = 0
   \<and> \<not> valid_line lit_float ''  '' \<and> \<not> valid_line lit_float ''7''
   \<and> \<not> valid_line lit_float ''2 x''
   \<and> read_depth_file lit_float [''t.depth'' \<mapsto> [''  '', ''7'', ''2 x'']] ''t.depth'' = Inr []
   \<and> map_sum id compute_metrics
         (read_depth_file lit_float [''t.depth'' \<mapsto> [''  '', ''7'', ''2 x'']] ''t.depth'')
       = Inr (0, 0, 0)"
proof -
  have m: "mean_depth (compute_metrics [- 1, 1]) \<le> 0"
    by (simp add: compute_metrics_def mean_depth_def)
  have v: "\<not> valid_line lit_float ''  ''" "\<not> valid_line lit_float ''7''"
    "\<not> valid_line lit_float ''2 x''"
    by (simp_all add: valid_line_def strip_def is_space_def lit_float_def)
  from m v show ?thesis
    using evenness_zero_cases [of "[- 1, 1]" 0 "[''t.depth'' \<mapsto> [''  '', ''7'', ''2 x'']]"
        "''t.depth''" "[''  '', ''7'', ''2 x'']" lit_float]
    by simp
qed

text \<open>
  The claim as stated fails on the singleton \<open>[5]\<close>: its evenness is 1.
\<close>

theorem evenness_singleton_counterexample:
  "\<not> (length [5::real] \<le> 1 \<longrightarrow> evenness (compute_metrics [5]) = 0)"
  by (simp add: compute_metrics_def evenness_def)

text \<open>
  \<^bold>\<open>C2\<close> (amended). For every depth sequence the breadth lies in \<open>[0, 100]\<close> and the
  evenness in \<open>[0, 1]\<close>; the mean depth is non-negative when no depth value is negative.
\<close>

theorem metrics_ranges:
  "0 \<le> breadth_pct (compute_metrics ds) \<and> breadth_pct (compute_metrics ds) \<le> 100
   \<and> 0 \<le> evenness (compute_metrics ds) \<and> evenness (compute_metrics ds) \<le> 1
   \<and> ((\<forall>d\<in>set ds. 0 \<le> d) \<longrightarrow> 0 \<le> mean_depth (compute_metrics ds))"
  using breadth_bounds [of ds] evenness_bounds [of ds] mean_nonneg [of ds] by blast

text \<open>The theorem at a concrete input.\<close>

theorem metrics_ranges_witness:
  "compute_metrics [0, 5, 5, 0] = (50, 5 / 2, 0)
   \<and> 0 \<le> mean_depth (compute_metrics [0, 5, 5, 0])
   \<and> breadth_pct (compute_metrics [0, 5, 5, 0]) \<le> 100
   \<and> evenness (compute_metrics [0, 5, 5, 0]) \<le> 1"
proof -
  have h: "\<forall>d\<in>set [0, 5, 5, 0 :: real]. 0 \<le> d" by simp
  have v: "compute_metrics [0, 5, 5, 0] = (50, 5 / 2, 0)"
    by (simp add: compute_metrics_def pstdev_def power2_eq_square real_sqrt_divide)
  from h v show ?thesis using metrics_ranges [of "[0, 5, 5, 0]"] by blast
qed

text \<open>
  The reader accepts negative depths, and the single depth \<open>-1\<close> has mean depth \<open>-1\<close>.
\<close>

theorem mean_depth_negative_counterexample:
  "\<not> (0 \<le> mean_depth (compute_metrics [- 1]))"
  by (simp add: compute_metrics_def mean_depth_def)

text \<open>
  \<^bold>\<open>C5\<close>. On every readable file the depth reader returns a sequence and raises nothing.
  A line that is blank, has fewer than two whitespace-separated fields, or whose second
  field \<open>float\<close> rejects, leaves the sequence as it is; every other line appends exactly
  one value, the parsed second field. So the result is the parsed second fields of the
  valid lines, in file order.
\<close>

theorem read_depth_file_skips:
  "fs path = Some ls \<Longrightarrow>
     read_depth_file pf fs path =
       Inr (map (\<lambda>l. projr (pf (split l ! 1))) (filter (valid_line pf) ls))
     \<and> depth_step pf l acc =
         (if strip l = [] \<or> length (split l) < 2 \<or> isl (pf (split l ! 1)) then acc
          else acc @ [projr (pf (split l ! 1))])"
proof -
  assume rd: "fs path = Some ls"
  have "fold (depth_step pf) ls [] =
          map (\<lambda>l. projr (pf (split l ! 1))) (filter (valid_line pf) ls)"
    by (simp add: fold_depth_step)
  with rd have whole: "read_depth_file pf fs path =
       Inr (map (\<lambda>l. projr (pf (split l ! 1))) (filter (valid_line pf) ls))"
    by (simp add: read_depth_file_def)
  have line: "depth_step pf l acc =
         (if strip l = [] \<or> length (split l) < 2 \<or> isl (pf (split l ! 1)) then acc
          else acc @ [projr (pf (split l ! 1))])"
    by (simp add: depth_step_valid valid_line_def)
  from whole line show ?thesis by (rule conjI)
qed

text \<open>The theorem at a concrete input.\<close>

theorem read_depth_file_skips_witness:
  "read_depth_file lit_float [''t.depth'' \<mapsto> [''1 0'', '''', ''7'', ''2 x'', '' 3  5 extra'']] ''t.depth''
     = Inr [0, 5]"
proof -
  let ?ls = "[''1 0'', '''', ''7'', ''2 x'', '' 3  5 extra'']"
  have h: "[''t.depth'' \<mapsto> ?ls] ''t.depth'' = Some ?ls" by simp
  show ?thesis
    using h read_depth_file_skips [where fs = "[''t.depth'' \<mapsto> ?ls]" and path = "''t.depth''"
        and ls = ?ls and pf = lit_float and acc = "[]" and l = "''2 x''"]
    by (simp add: valid_line_def strip_def is_space_def lit_float_def)
qed

text \<open>
  \<^bold>\<open>C10\<close>. Two files whose lines differ at most in their first whitespace-separated
  field are read as the same depth sequence, so the metrics computed from them are equal.
\<close>

theorem read_depth_file_ignores_position:
  "fs path = Some ls \<Longrightarrow> fs' path' = Some ls' \<Longrightarrow> list_all2 same_but_first_field ls ls' \<Longrightarrow>
     read_depth_file pf fs path = read_depth_file pf fs' path'
     \<and> map_sum id compute_metrics (read_depth_file pf fs path)
         = map_sum id compute_metrics (read_depth_file pf fs' path')"
proof -
  assume f: "fs path = Some ls" and f': "fs' path' = Some ls'"
    and rel: "list_all2 same_but_first_field ls ls'"
  from rel have "fold (depth_step pf) ls [] = fold (depth_step pf) ls' []"
    by (rule fold_depth_step_rel)
  with f f' have "read_depth_file pf fs path = read_depth_file pf fs' path'"
    by (simp add: read_depth_file_def)
  then show ?thesis by simp
qed

text \<open>The theorem at a concrete input.\<close>

theorem read_depth_file_ignores_position_witness:
  "list_all2 same_but_first_field [''1 0'', ''2 5'', ''x''] [''pos 0'', ''-7 5'', ''y'']
   \<and> read_depth_file lit_float [''a'' \<mapsto> [''1 0'', ''2 5'', ''x'']] ''a''
       = read_depth_file lit_float [''b'' \<mapsto> [''pos 0'', ''-7 5'', ''y'']] ''b''"
proof -
  let ?a = "[''1 0'', ''2 5'', ''x'']" and ?b = "[''pos 0'', ''-7 5'', ''y'']"
  have h1: "[''a'' \<mapsto> ?a] ''a'' = Some ?a" by simp
  have h2: "[''b'' \<mapsto> ?b] ''b'' = Some ?b" by simp
  have h3: "list_all2 same_but_first_field ?a ?b"
    by (simp add: same_but_first_field_def is_space_def)
  from h1 h2 h3 show ?thesis
    using read_depth_file_ignores_position [where fs = "[''a'' \<mapsto> ?a]" and path = "''a''"
        and ls = ?a and fs' = "[''b'' \<mapsto> ?b]" and path' = "''b''" and ls' = ?b
        and pf = lit_float]
    by simp
qed

subsection \<open>Sensitivity\<close>

text \<open>
  \<^bold>\<open>C3\<close>. If the input holds a row that is not empty, is not a comment and has fewer than
  8 fields, \<open>read_tsv\<close> raises a \<open>ValueError\<close>; \<open>main\<close> ends with that error and leaves the
  world as it was, so neither CSV file has been written. When the rows before the short
  one parse, the error is the one about the number of columns.
\<close>

theorem short_row_aborts_run:
  assumes "tsv_files w (arg_infile a) = Some (pre @ r # post)"
    and "r \<noteq> []" and "\<not> startswith (r ! 0) ''#''" and "length r < 8"
  shows "\<exists>m. read_tsv pf pn (tsv_files w) (arg_infile a) = Inl (ValueError m)
           \<and> main pf pn a w = (Inl (ValueError m), w)
           \<and> ((\<exists>hs. read_rows pf pn pre [] = Inr hs) \<longrightarrow> m = too_few_columns)"
proof (cases "read_rows pf pn pre []")
  case (Inl e)
  then obtain m where m: "e = ValueError m"
    using read_rows_error_is_ValueError by blast
  from Inl have "read_rows pf pn (pre @ r # post) [] = Inl e"
    by (simp add: read_rows_append)
  with assms(1) have rd: "read_tsv pf pn (tsv_files w) (arg_infile a) = Inl e"
    by (simp add: read_tsv_def)
  with m Inl show ?thesis
    using main_read_error[OF rd] by auto
next
  case (Inr hs)
  with assms(2-4) have "read_rows pf pn (pre @ r # post) [] = Inl (ValueError too_few_columns)"
    by (simp add: read_rows_append)
  with assms(1) have rd: "read_tsv pf pn (tsv_files w) (arg_infile a) = Inl (ValueError too_few_columns)"
    by (simp add: read_tsv_def)
  then show ?thesis
    using main_read_error[OF rd] by auto
qed

text \<open>The theorem at a concrete input.\<close>

theorem short_row_aborts_run_witness:
  "main lit_float lit_int demo_args (demo_world [scenario_c, scenario_d])
     = (Inl (ValueError too_few_columns), demo_world [scenario_c, scenario_d])
   \<and> csv_files (snd (main lit_float lit_int demo_args (demo_world [scenario_c, scenario_d])))
       = Map.empty"
proof -
  have h1: "tsv_files (demo_world [scenario_c, scenario_d]) (arg_infile demo_args)
              = Some ([scenario_c] @ scenario_d # [])"
    by (simp add: demo_world_def demo_args_def)
  have h2: "scenario_d \<noteq> []" "\<not> startswith (scenario_d ! 0) ''#''" "length scenario_d < 8"
    by (simp_all add: scenario_d_def startswith_def)
  have h3: "\<exists>hs. read_rows lit_float lit_int [scenario_c] [] = Inr hs"
    by (simp add: scenario_c_def startswith_def parse_row_def lit_float_def lit_int_def)
  from short_row_aborts_run [OF h1 h2, of lit_float lit_int] h3
  have "main lit_float lit_int demo_args (demo_world [scenario_c, scenario_d])
          = (Inl (ValueError too_few_columns), demo_world [scenario_c, scenario_d])"
    by auto
  then show ?thesis by (simp add: demo_world_def)
qed

text \<open>
  \<^bold>\<open>C4\<close> (amended). Every error raised by \<open>read_tsv\<close> while parsing reaches the caller:
  \<open>main\<close> ends with it and writes nothing. It is a \<open>ValueError\<close> whose message is either the
  fixed text about the number of columns, for a row with fewer than 8 fields, or the
  message of the conversion that rejected one of the first 8 fields of a row. It does not
  identify the line or the file: the same rows behind any number of empty rows, under any
  path, raise the same error.
\<close>

theorem parse_error_surfaces:
  assumes "tsv_files w (arg_infile a) = Some rdr"
    and "read_tsv pf pn (tsv_files w) (arg_infile a) = Inl e"
  shows "main pf pn a w = (Inl e, w)
     \<and> ((\<exists>r\<in>set rdr. \<not> skipped r \<and> length r < 8 \<and> e = ValueError too_few_columns)
        \<or> (\<exists>r\<in>set rdr. \<not> skipped r \<and> 8 \<le> length r \<and>
              (\<exists>s\<in>set (take 8 r). \<exists>m. (pf s = Inl m \<or> pn s = Inl m) \<and> e = ValueError m)))
     \<and> (\<forall>n fs' path'. fs' path' = Some (replicate n [] @ rdr) \<longrightarrow>
            read_tsv pf pn fs' path' = Inl e)"
proof -
  from assms have rr: "read_rows pf pn rdr [] = Inl e"
    by (simp add: read_tsv_def)
  have a: "main pf pn a w = (Inl e, w)"
    using assms(2) by (rule main_read_error)
  have b: "(\<exists>r\<in>set rdr. \<not> skipped r \<and> length r < 8 \<and> e = ValueError too_few_columns)
        \<or> (\<exists>r\<in>set rdr. \<not> skipped r \<and> 8 \<le> length r \<and>
              (\<exists>s\<in>set (take 8 r). \<exists>m. (pf s = Inl m \<or> pn s = Inl m) \<and> e = ValueError m))"
    using read_rows_error[OF rr] parse_row_error[of pf pn _ e] by blast
  have c: "\<forall>n fs' path'. fs' path' = Some (replicate n [] @ rdr) \<longrightarrow>
            read_tsv pf pn fs' path' = Inl e"
    using rr by (simp add: read_tsv_def read_rows_blank_prefix)
  from a b c show ?thesis by blast
qed

text \<open>The theorem at a concrete input.\<close>

theorem parse_error_surfaces_witness:
  "main lit_float lit_int demo_args (demo_world [scenario_c, bad_evalue_row])
     = (Inl (ValueError (''could not convert string to float: '' @ [CHR 0x27] @ ''x'' @ [CHR 0x27])),
        demo_world [scenario_c, bad_evalue_row])
   \<and> read_tsv lit_float lit_int [''other.tsv'' \<mapsto> [[], [], scenario_c, bad_evalue_row]] ''other.tsv''
     = Inl (ValueError (''could not convert string to float: '' @ [CHR 0x27] @ ''x'' @ [CHR 0x27]))"
proof -
  let ?e = "ValueError (''could not convert string to float: '' @ [CHR 0x27] @ ''x'' @ [CHR 0x27])"
  let ?w = "demo_world [scenario_c, bad_evalue_row]"
  have h1: "tsv_files ?w (arg_infile demo_args) = Some [scenario_c, bad_evalue_row]"
    by (simp add: demo_world_def demo_args_def)
  have h2: "read_tsv lit_float lit_int (tsv_files ?w) (arg_infile demo_args) = Inl ?e"
    by (simp add: demo_world_def demo_args_def read_tsv_def scenario_c_def bad_evalue_row_def
        startswith_def parse_row_def lit_float_def lit_int_def)
  note t = parse_error_surfaces [where w = ?w and a = demo_args and pf = lit_float
      and pn = lit_int and rdr = "[scenario_c, bad_evalue_row]" and e = ?e]
  from t h1 h2 have a: "main lit_float lit_int demo_args ?w = (Inl ?e, ?w)" by blast
  from t h1 h2 have "\<forall>n fs' path'. fs' path' = Some (replicate n [] @ [scenario_c, bad_evalue_row]) \<longrightarrow>
            read_tsv lit_float lit_int fs' path' = Inl ?e" by blast
  then have "[''other.tsv'' \<mapsto> [[], [], scenario_c, bad_evalue_row]] ''other.tsv''
               = Some (replicate (Suc (Suc 0)) [] @ [scenario_c, bad_evalue_row]) \<longrightarrow>
             read_tsv lit_float lit_int [''other.tsv'' \<mapsto> [[], [], scenario_c, bad_evalue_row]] ''other.tsv''
               = Inl ?e"
    by blast
  then have b: "read_tsv lit_float lit_int [''other.tsv'' \<mapsto> [[], [], scenario_c, bad_evalue_row]] ''other.tsv''
               = Inl ?e"
    by simp
  from a b show ?thesis by simp
qed

text \<open>
  The claim as stated fails: a short row on line 1 of \<open>a.tsv\<close> and on line 3 of \<open>b.tsv\<close>
  raise the same error, whose text names neither; the error for a non-numeric field
  quotes the field only.
\<close>

theorem error_without_line_or_file_counterexample:
  "read_tsv lit_float lit_int [''a.tsv'' \<mapsto> [scenario_d]] ''a.tsv''
     = Inl (ValueError too_few_columns)
   \<and> read_tsv lit_float lit_int [''b.tsv'' \<mapsto> [scenario_c, [], scenario_d]] ''b.tsv''
     = Inl (ValueError too_few_columns)
   \<and> read_tsv lit_float lit_int [''a.tsv'' \<mapsto> [[''q'', ''t'', ''x'', ''40'', ''35'', ''100'', ''60'', ''60'']]] ''a.tsv''
     = Inl (ValueError (''could not convert string to float: '' @ [CHR 0x27] @ ''x'' @ [CHR 0x27]))"
  by (simp add: read_tsv_def scenario_c_def scenario_d_def startswith_def parse_row_def
      lit_float_def lit_int_def)

text \<open>
  \<^bold>\<open>C9\<close>. Fields beyond the eighth are ignored: a file and the same file with every row cut
  to its first 8 fields are read alike. The reader succeeds exactly when every row is
  empty, a comment, or has at least 8 fields whose six numeric columns convert; it raises
  in no other case, so never because of extra columns.
\<close>

theorem extra_columns_ignored:
  "fs path = Some rdr \<Longrightarrow> fs' path' = Some (map (take 8) rdr) \<Longrightarrow>
     read_tsv pf pn fs path = read_tsv pf pn fs' path'
     \<and> ((\<exists>hs. read_tsv pf pn fs path = Inr hs) \<longleftrightarrow>
          (\<forall>r\<in>set rdr. skipped r \<or> (8 \<le> length r \<and> numeric_ok pf pn r)))"
proof -
  assume f: "fs path = Some rdr" and f': "fs' path' = Some (map (take 8) rdr)"
  from f have full: "read_tsv pf pn fs path = read_rows pf pn rdr []"
    by (simp add: read_tsv_def)
  from f' have "read_tsv pf pn fs' path' = read_rows pf pn (map (take 8) rdr) []"
    by (simp add: read_tsv_def)
  with full have same: "read_tsv pf pn fs path = read_tsv pf pn fs' path'"
    by (simp add: read_rows_take8)
  have "(\<exists>hs. read_rows pf pn rdr [] = Inr hs) \<longleftrightarrow>
          (\<forall>r\<in>set rdr. skipped r \<or> (8 \<le> length r \<and> numeric_ok pf pn r))"
    by (rule read_rows_ok_iff)
  with full same show ?thesis by simp
qed

text \<open>The theorem at a concrete input.\<close>

theorem extra_columns_ignored_witness:
  "read_tsv lit_float lit_int [''wide.tsv'' \<mapsto> [scenario_c @ [''extra'', ''100''], [''#query'']]] ''wide.tsv''
     = Inr [scenario_c_hit]
   \<and> read_tsv lit_float lit_int [''wide.tsv'' \<mapsto> [scenario_c @ [''extra'', ''100''], [''#query'']]] ''wide.tsv''
     = read_tsv lit_float lit_int [''narrow.tsv'' \<mapsto> [scenario_c, [''#query'']]] ''narrow.tsv''"
proof -
  let ?rdr = "[scenario_c @ [''extra'', ''100''], [''#query'']]"
  have h1: "[''wide.tsv'' \<mapsto> ?rdr] ''wide.tsv'' = Some ?rdr" by simp
  have h2: "[''narrow.tsv'' \<mapsto> [scenario_c, [''#query'']]] ''narrow.tsv'' = Some (map (take 8) ?rdr)"
    by (simp add: scenario_c_def)
  have v: "read_tsv lit_float lit_int [''narrow.tsv'' \<mapsto> [scenario_c, [''#query'']]] ''narrow.tsv''
             = Inr [scenario_c_hit]"
    by (simp add: read_tsv_def scenario_c_def scenario_c_hit_def startswith_def parse_row_def
        lit_float_def lit_int_def)
  from h1 h2 v show ?thesis
    using extra_columns_ignored [where fs = "[''wide.tsv'' \<mapsto> ?rdr]" and path = "''wide.tsv''"
        and rdr = ?rdr and fs' = "[''narrow.tsv'' \<mapsto> [scenario_c, [''#query'']]]"
        and path' = "''narrow.tsv''" and pf = lit_float and pn = lit_int]
    by simp
qed

text \<open>
  \<^bold>\<open>C6\<close>. For two declared thresholds \<open>b1 < b2\<close>, at positions \<open>i\<close> and \<open>j\<close> of the
  list, the summary for \<open>b2\<close> counts at most as many hits, unique queries, conservative
  hits and conservative unique queries as the summary for \<open>b1\<close>; each summary filters
  the whole hit list with \<open>evalue \<le> cutoff \<and> bits \<ge> b\<close>.
\<close>

theorem stricter_bits_fewer_hits:
  assumes "i < length bits_list" and "j < length bits_list" and "bits_list ! i < bits_list ! j"
  shows "n_hits_total (fst (make_summaries rows bits_list ev cp cq) ! j)
           \<le> n_hits_total (fst (make_summaries rows bits_list ev cp cq) ! i)
     \<and> n_unique_queries_total (fst (make_summaries rows bits_list ev cp cq) ! j)
           \<le> n_unique_queries_total (fst (make_summaries rows bits_list ev cp cq) ! i)
     \<and> n_hits_conservative (fst (make_summaries rows bits_list ev cp cq) ! j)
           \<le> n_hits_conservative (fst (make_summaries rows bits_list ev cp cq) ! i)
     \<and> n_unique_queries_conservative (fst (make_summaries rows bits_list ev cp cq) ! j)
           \<le> n_unique_queries_conservative (fst (make_summaries rows bits_list ev cp cq) ! i)
     \<and> threshold_bits (fst (make_summaries rows bits_list ev cp cq) ! i) = bits_list ! i
     \<and> threshold_bits (fst (make_summaries rows bits_list ev cp cq) ! j) = bits_list ! j
     \<and> n_hits_total (fst (make_summaries rows bits_list ev cp cq) ! i)
           = length (filter (\<lambda>r. evalue r \<le> ev \<and> bits r \<ge> of_int (bits_list ! i)) rows)"
proof -
  from assms(3) have le: "bits_list ! i \<le> bits_list ! j" by simp
  from assms(1,2) have
    si: "fst (make_summaries rows bits_list ev cp cq) ! i = summarise rows ev cp cq (bits_list ! i)"
    and sj: "fst (make_summaries rows bits_list ev cp cq) ! j = summarise rows ev cp cq (bits_list ! j)"
    by (simp_all add: make_summaries_map)
  show ?thesis
    unfolding si sj
    using summarise_mono[OF le, of rows ev cp cq]
    by (simp add: summarise_counts)
qed

text \<open>The theorem at a concrete input.\<close>

theorem stricter_bits_fewer_hits_witness:
  "map n_hits_total (fst (make_summaries [scenario_c_hit, weak_hit] [20, 35, 50] (1 / 10 ^ 5) 30 50))
     = [2, 1, 0]
   \<and> map n_unique_queries_total
         (fst (make_summaries [scenario_c_hit, weak_hit] [20, 35, 50] (1 / 10 ^ 5) 30 50))
     = [2, 1, 0]
   \<and> n_hits_conservative
         (fst (make_summaries [scenario_c_hit, weak_hit] [20, 35, 50] (1 / 10 ^ 5) 30 50) ! 1)
     \<le> n_hits_conservative
         (fst (make_summaries [scenario_c_hit, weak_hit] [20, 35, 50] (1 / 10 ^ 5) 30 50) ! 0)"
proof -
  have h: "(0::nat) < length [20, 35, 50 :: int]" "(1::nat) < length [20, 35, 50 :: int]"
    "[20, 35, 50 :: int] ! 0 < [20, 35, 50] ! 1"
    by simp_all
  have v: "map n_hits_total (fst (make_summaries [scenario_c_hit, weak_hit] [20, 35, 50] (1 / 10 ^ 5) 30 50))
     = [2, 1, 0]"
    "map n_unique_queries_total
         (fst (make_summaries [scenario_c_hit, weak_hit] [20, 35, 50] (1 / 10 ^ 5) 30 50))
     = [2, 1, 0]"
    by (simp_all add: make_summaries_def summarise_def scenario_c_hit_def weak_hit_def)
  from v show ?thesis
    using stricter_bits_fewer_hits [OF h, of "[scenario_c_hit, weak_hit]" "1 / 10 ^ 5" 30 50]
    by simp
qed

text \<open>
  \<^bold>\<open>C7\<close>. In the detailed entry of every hit, \<open>pass_evalue\<close> is \<open>evalue \<le> cutoff\<close>, the
  flag of every declared threshold \<open>B\<close> is \<open>bits \<ge> B \<and> pass_evalue\<close>, and
  \<open>pass_conservative\<close> is \<open>pass_evalue \<and> pident \<ge> cons_pident \<and> qcov \<ge> cons_qcov\<close>.
\<close>

theorem detailed_flags:
  assumes "i < length rows" and "B \<in> set bits_list"
  shows "pass_evalue (snd (make_summaries rows bits_list ev cp cq) ! i) = (evalue (rows ! i) \<le> ev)
     \<and> pass_bits (snd (make_summaries rows bits_list ev cp cq) ! i) B
         = Some (bits (rows ! i) \<ge> of_int B
                 \<and> pass_evalue (snd (make_summaries rows bits_list ev cp cq) ! i))
     \<and> pass_conservative (snd (make_summaries rows bits_list ev cp cq) ! i)
         = (pass_evalue (snd (make_summaries rows bits_list ev cp cq) ! i)
            \<and> pident (rows ! i) \<ge> cp \<and> qcov (rows ! i) \<ge> cq)"
  using assms by (simp add: make_summaries_map detail_flags)

text \<open>
  Scenario C of the specification: the row \<open>q1 t1 1e-6 40 35 100 60 60\<close> with thresholds
  \<open>[20, 35, 50]\<close> and e-value cutoff \<open>1e-5\<close>.
\<close>

theorem detailed_flags_witness:
  "read_tsv lit_float lit_int [''hits.tsv'' \<mapsto> [scenario_c]] ''hits.tsv'' = Inr [scenario_c_hit]
   \<and> pass_evalue (snd (make_summaries [scenario_c_hit] [20, 35, 50] (1 / 10 ^ 5) 30 50) ! 0)
   \<and> pass_bits (snd (make_summaries [scenario_c_hit] [20, 35, 50] (1 / 10 ^ 5) 30 50) ! 0) 20
       = Some True
   \<and> pass_bits (snd (make_summaries [scenario_c_hit] [20, 35, 50] (1 / 10 ^ 5) 30 50) ! 0) 35
       = Some True
   \<and> pass_bits (snd (make_summaries [scenario_c_hit] [20, 35, 50] (1 / 10 ^ 5) 30 50) ! 0) 50
       = Some False
   \<and> pass_conservative (snd (make_summaries [scenario_c_hit] [20, 35, 50] (1 / 10 ^ 5) 30 50) ! 0)"
proof -
  have r: "read_tsv lit_float lit_int [''hits.tsv'' \<mapsto> [scenario_c]] ''hits.tsv'' = Inr [scenario_c_hit]"
    by (simp add: read_tsv_def scenario_c_def scenario_c_hit_def startswith_def parse_row_def
        lit_float_def lit_int_def)
  have i: "(0::nat) < length [scenario_c_hit]" by simp
  have b: "(20::int) \<in> set [20, 35, 50]" "(35::int) \<in> set [20, 35, 50]"
    "(50::int) \<in> set [20, 35, 50]"
    by simp_all
  have f: "[scenario_c_hit] ! 0 = scenario_c_hit" by simp
  from r show ?thesis
    using detailed_flags [OF i b(1), of "1 / 10 ^ 5" 30 50]
      detailed_flags [OF i b(2), of "1 / 10 ^ 5" 30 50]
      detailed_flags [OF i b(3), of "1 / 10 ^ 5" 30 50]
    unfolding f
    by (simp add: scenario_c_hit_def)
qed

text \<open>
  \<^bold>\<open>C8\<close>. The detailed table has one entry per hit, in input order, each carrying the
  fields of its hit; \<open>write_detailed\<close> writes the header and then one row per entry in
  the same order, each row starting with the 8 fields of its hit.
\<close>

theorem detailed_one_row_per_hit:
  "length (snd (make_summaries rows bits_list ev cp cq)) = length rows
   \<and> map hit.truncate (snd (make_summaries rows bits_list ev cp cq)) = rows
   \<and> (writable w out_path \<longrightarrow>
        (\<exists>w' body. write_detailed (snd (make_summaries rows bits_list ev cp cq)) bits_list out_path w
                      = Inr w'
           \<and> csv_files w' out_path = Some (map CStr (detailed_fieldnames bits_list) # body)
           \<and> length body = length rows
           \<and> map (take 8) body = map hit_cells rows))"
proof -
  let ?D = "snd (make_summaries rows bits_list ev cp cq)"
  have D: "?D = map (detail bits_list ev cp cq) rows"
    by (simp add: make_summaries_map)
  have a: "length ?D = length rows" by (simp add: D)
  have b: "map hit.truncate ?D = rows"
    by (simp add: D truncate_detail map_idI)
  have c: "\<exists>w' body. write_detailed ?D bits_list out_path w = Inr w'
           \<and> csv_files w' out_path = Some (map CStr (detailed_fieldnames bits_list) # body)
           \<and> length body = length rows
           \<and> map (take 8) body = map hit_cells rows" if "writable w out_path"
  proof -
    let ?body = "map (detailed_row bits_list) ?D"
    let ?w' = "w\<lparr>csv_files := (csv_files w)(out_path \<mapsto>
                 map CStr (detailed_fieldnames bits_list) # ?body)\<rparr>"
    from that have "write_detailed ?D bits_list out_path w = Inr ?w'"
      by (simp add: write_detailed_def fold_snoc)
    moreover have "csv_files ?w' out_path = Some (map CStr (detailed_fieldnames bits_list) # ?body)"
      by simp
    moreover have "length ?body = length rows" by (simp add: D)
    moreover have "map (take 8) ?body = map hit_cells rows"
      by (simp add: D detailed_row_take8)
    ultimately show ?thesis by blast
  qed
  from a b c show ?thesis by blast
qed

text \<open>The theorem at a concrete input.\<close>

theorem detailed_one_row_per_hit_witness:
  "(\<exists>w'. write_detailed (snd (make_summaries [weak_hit, scenario_c_hit] [20, 35, 50] (1 / 10 ^ 5) 30 50))
            [20, 35, 50] ''out/Table_Sx_detailed.csv'' (demo_world []) = Inr w'
      \<and> map (take 8) (tl (the (csv_files w' ''out/Table_Sx_detailed.csv'')))
          = [hit_cells weak_hit, hit_cells scenario_c_hit])
   \<and> map pass_conservative (snd (make_summaries [weak_hit, scenario_c_hit] [20, 35, 50] (1 / 10 ^ 5) 30 50))
       = [False, True]"
proof -
  have h: "writable (demo_world []) ''out/Table_Sx_detailed.csv''"
    by (simp add: demo_world_def)
  have v: "map pass_conservative (snd (make_summaries [weak_hit, scenario_c_hit] [20, 35, 50] (1 / 10 ^ 5) 30 50))
       = [False, True]"
    by (simp add: make_summaries_def detail_def weak_hit_def scenario_c_hit_def)
  from h v show ?thesis
    using detailed_one_row_per_hit [of "[weak_hit, scenario_c_hit]" "[20, 35, 50]" "1 / 10 ^ 5" 30 50
        "demo_world []" "''out/Table_Sx_detailed.csv''"]
    by fastforce
qed

end
